theory Spec2Isabelle
  imports Main "HOL-Library.Char_ord" "HOL-Library.List_Lexorder" "HOL-Library.Word"
begin

section \<open>Bytes, identifiers and errors\<close>

text \<open>
  Go byte strings (\<^verbatim>\<open>[]byte\<close>, \<^verbatim>\<open>string\<close>, and the fixed-size arrays \<^verbatim>\<open>types.ID\<close>,
  \<^verbatim>\<open>types.Address\<close>, \<^verbatim>\<open>types.Hash\<close>, \<^verbatim>\<open>types.Signature\<close>) are lists of 8-bit
  characters. With the two library theories imported above, \<open><\<close> on such lists is
  the lexicographic order on unsigned bytes, which is what \<^verbatim>\<open>bytes.Compare\<close> computes.
\<close>

type_synonym bytes = string
type_synonym ID = bytes
type_synonym Address = bytes
type_synonym Hash = bytes
type_synonym Signature = bytes
type_synonym Keypath = bytes

text \<open>
  The error values the sources return. \<^verbatim>\<open>errors.Cause\<close> strips the wrapping that
  \<^verbatim>\<open>errors.Wrapf\<close> adds, so a wrapped error is modelled by its cause. A run-time panic
  is the value \<open>Panic\<close> with the panic's message.
\<close>

datatype error =
    ErrNoParentYet
  | ErrMissingCriticalRefs
  | ErrInvalidSignature
  | ErrTxMissingParents
  | ErrUnsignedTx
  | Err404
  | ErrInvalidRange
  | ErrRangeOverNonSlice
  | ErrOther string
  | Panic string

section \<open>Values, ranges and patches\<close>

text \<open>
  A Go \<^verbatim>\<open>interface{}\<close> holding a JSON-shaped value. The numbers are 64 bits wide
  (\<^verbatim>\<open>int64\<close>, \<^verbatim>\<open>uint64\<close>, and a \<^verbatim>\<open>float64\<close> carried as its bit pattern: the tree only
  stores them). A Go map has no iteration order; the association list of \<open>VMap\<close>
  fixes one.
\<close>

datatype val =
    VNil
  | VBool bool
  | VInt "64 word"
  | VUint "64 word"
  | VFloat "64 word"
  | VString string
  | VMap "(string \<times> val) list"
  | VSlice "val list"

text \<open>\<^verbatim>\<open>tree.Range\<close> is a pair of 64-bit integers, read as \<^verbatim>\<open>p.Range[0]\<close> and
  \<^verbatim>\<open>p.Range[1]\<close> in \<^verbatim>\<open>Patch.String\<close>.\<close>

type_synonym Range = "int \<times> int"

record Patch =
  Keypath :: Keypath
  Range :: "Range option"
  Val :: val

section \<open>Transactions (tx.go)\<close>

record Tx =
  ID :: ID
  Parents :: "ID list"
  From :: Address
  Sig :: Signature
  URL :: string
  Patches :: "Patch list"
  Recipients :: "Address list"
  Checkpoint :: bool
  Valid :: bool
  hash :: Hash

text \<open>
  The cryptographic primitives and the textual form of a patch live outside the
  sources at hand (\<^verbatim>\<open>types.HashBytes\<close>, \<^verbatim>\<open>RecoverSigningPubkey\<close>,
  \<^verbatim>\<open>SigningPublicKey.VerifySignature\<close>, \<^verbatim>\<open>SigningPublicKey.Address\<close>; \<^verbatim>\<open>Patch.String\<close>
  needs \<^verbatim>\<open>Keypath.Parts\<close> and \<^verbatim>\<open>json.Marshal\<close>). Every function that uses them takes
  them as the record \<open>crypto\<close>; \<open>'pk\<close> is the type of signing public keys and
  \<open>RecoverSigningPubkey\<close> returns \<open>None\<close> where the Go function returns an error.
\<close>

record 'pk crypto =
  HashBytes :: "bytes \<Rightarrow> Hash"
  PatchString :: "Patch \<Rightarrow> string"
  RecoverSigningPubkey :: "Hash \<Rightarrow> Signature \<Rightarrow> 'pk option"
  VerifySignature :: "'pk \<Rightarrow> Hash \<Rightarrow> Signature \<Rightarrow> bool"
  PubkeyAddress :: "'pk \<Rightarrow> Address"

text \<open>\<^verbatim>\<open>types.IDFromString("genesis")\<close>: the identifier is opaque, only equality with it
  is ever tested.\<close>

definition GenesisTxID :: ID where
  "GenesisTxID = ''genesis''"

text \<open>\<^verbatim>\<open>types.Hash{}\<close>, thirty-two zero bytes.\<close>

definition EmptyHash :: Hash where
  "EmptyHash = replicate 32 (CHR 0x00)"

text \<open>\<^verbatim>\<open>Tx.Hash\<close>: the digest of \<^verbatim>\<open>ID || Parents || URL || patches || Recipients\<close>, unless
  the memo field already holds a hash.\<close>

definition txBytes :: "'pk crypto \<Rightarrow> Tx \<Rightarrow> bytes" where
  "txBytes cr tx =
     ID tx @ concat (Parents tx) @ URL tx
       @ concat (map (PatchString cr) (Patches tx)) @ concat (Recipients tx)"

definition Hash :: "'pk crypto \<Rightarrow> Tx \<Rightarrow> Hash" where
  "Hash cr tx = (if hash tx = EmptyHash then HashBytes cr (txBytes cr tx) else hash tx)"

definition IsPrivate :: "Tx \<Rightarrow> bool" where
  "IsPrivate tx = (0 < length (Recipients tx))"

text \<open>\<^verbatim>\<open>Hash.Hex\<close>: two lower-case hexadecimal digits per byte, high nibble first.\<close>

definition hexdigit :: "nat \<Rightarrow> char" where
  "hexdigit n = ''0123456789abcdef'' ! n"

definition Hex :: "bytes \<Rightarrow> string" where
  "Hex bs = concat (map (\<lambda>c. [hexdigit (of_char c div 16), hexdigit (of_char c mod 16)]) bs)"

text \<open>\<^verbatim>\<open>PrivateRootKeyForRecipients\<close>: the loop appends the recipients in the order of
  the slice it is given.\<close>

definition PrivateRootKeyForRecipients :: "'pk crypto \<Rightarrow> Address list \<Rightarrow> string" where
  "PrivateRootKeyForRecipients cr recipients =
     ''private-'' @ Hex (HashBytes cr (concat recipients))"

definition PrivateRootKey :: "'pk crypto \<Rightarrow> Tx \<Rightarrow> string" where
  "PrivateRootKey cr tx = PrivateRootKeyForRecipients cr (Recipients tx)"

section \<open>The controller and its mempool\<close>

text \<open>
  The fields of \<^verbatim>\<open>controller\<close> that the transaction path reads or writes.

  \<^item> \<open>txs\<close> is the map \<^verbatim>\<open>c.txs\<close>, which \<^verbatim>\<open>HaveTx\<close> consults.
  \<^item> \<open>txStore\<close>: the \<^verbatim>\<open>TxStore\<close> interface has no implementation among the sources.
    Modelled from the spec: a tx is "stored unvalidated in the tx store" and "is
    never removed"; the store of one state URI is a map from tx ID to the stored tx,
    \<^verbatim>\<open>TxExists\<close> tests the key, \<^verbatim>\<open>FetchTx\<close> returns \<^verbatim>\<open>Err404\<close> for a missing key and
    \<^verbatim>\<open>AddTx\<close> writes the key. Input/output failures of a store are outside the model.
  \<^item> \<open>chMempool\<close> is the channel from \<^verbatim>\<open>AddTx\<close> to the mempool worker, as the queue of
    txs sent and not yet received; \<open>mempool\<close> is the worker's pending list.
  \<^item> \<open>states\<close> stands for the state database \<^verbatim>\<open>c.states\<close> together with the behavior
    tree, of an arbitrary type \<open>'s\<close>.
\<close>

record 's controller =
  txs :: "ID \<rightharpoonup> Tx"
  txStore :: "ID \<rightharpoonup> Tx"
  leaves :: "ID set"
  chMempool :: "Tx list"
  mempool :: "Tx list"
  states :: 's

text \<open>
  The part of \<^verbatim>\<open>processMempoolTx\<close> between the intrinsic validation and the update of
  the leaves (validators, resolvers, \<^verbatim>\<open>onTxProcessed\<close>, \<^verbatim>\<open>state.Save\<close>, \<^verbatim>\<open>CopyVersion\<close>)
  calls into the behavior tree and the state database, which are not among the
  sources. It is the parameter \<open>applyTx\<close>: from the database and the tx to the
  database afterwards and the error of the first step that failed, if one did.
\<close>

type_synonym 's applyTx = "'s \<Rightarrow> Tx \<Rightarrow> 's \<times> error option"

definition NewController :: "'s \<Rightarrow> 's controller" where
  "NewController s =
     \<lparr>txs = Map.empty, txStore = Map.empty, leaves = {}, chMempool = [], mempool = [],
      states = s\<rparr>"

definition HaveTx :: "'s controller \<Rightarrow> ID \<Rightarrow> bool" where
  "HaveTx c txID = (txs c txID \<noteq> None)"

text \<open>\<^verbatim>\<open>AddTx\<close>: a tx whose ID the store knows is skipped; a new one is stored with
  \<^verbatim>\<open>Valid = false\<close> and sent to the mempool worker. The tx is passed by pointer and
  its \<^verbatim>\<open>Valid\<close> field is written, so the caller's tx afterwards is returned too.\<close>

definition AddTx :: "'s controller \<Rightarrow> Tx \<Rightarrow> 's controller \<times> Tx \<times> error option" where
  "AddTx c tx =
     (if txStore c (ID tx) \<noteq> None then (c, tx, None)
      else let tx' = tx\<lparr>Valid := False\<rparr>
           in (c\<lparr>txStore := (txStore c)(ID tx' \<mapsto> tx'), chMempool := chMempool c @ [tx']\<rparr>,
               tx', None))"

text \<open>The loop over \<^verbatim>\<open>tx.Parents\<close> in \<^verbatim>\<open>validateTxIntrinsics\<close>; it returns at the
  first parent that is missing or not valid.\<close>

fun checkParents :: "(ID \<rightharpoonup> Tx) \<Rightarrow> ID list \<Rightarrow> error option" where
  "checkParents store [] = None"
| "checkParents store (parentID # rest) =
     (case store parentID of
        None \<Rightarrow> Some ErrNoParentYet
      | Some parentTx \<Rightarrow>
          if \<not> Valid parentTx \<and> parentID \<noteq> GenesisTxID then Some ErrNoParentYet
          else checkParents store rest)"

definition validateTxIntrinsics :: "'pk crypto \<Rightarrow> 's controller \<Rightarrow> Tx \<Rightarrow> error option" where
  "validateTxIntrinsics cr c tx =
     (if length (Parents tx) = 0 \<and> ID tx \<noteq> GenesisTxID then Some ErrTxMissingParents
      else case checkParents (txStore c) (Parents tx) of
        Some e \<Rightarrow> Some e
      | None \<Rightarrow>
          if ID tx \<noteq> GenesisTxID then
            (case RecoverSigningPubkey cr (Hash cr tx) (Sig tx) of
               None \<Rightarrow> Some ErrInvalidSignature
             | Some sigPubKey \<Rightarrow>
                 if VerifySignature cr sigPubKey (Hash cr tx) (Sig tx) = False
                 then Some ErrInvalidSignature
                 else if PubkeyAddress cr sigPubKey \<noteq> From tx then Some ErrInvalidSignature
                 else None)
          else None)"

text \<open>
  \<^verbatim>\<open>processMempoolTx\<close>. After the pipeline has succeeded: the parents are deleted from
  the leaves, then the tx's ID is inserted, then the tx is marked valid and written
  to the store.
\<close>

definition processMempoolTx ::
  "'pk crypto \<Rightarrow> 's applyTx \<Rightarrow> 's controller \<Rightarrow> Tx \<Rightarrow> 's controller \<times> error option" where
  "processMempoolTx cr ap c tx =
     (case validateTxIntrinsics cr c tx of
        Some e \<Rightarrow> (c, Some e)
      | None \<Rightarrow>
          (case ap (states c) tx of
             (s', Some e) \<Rightarrow> (c\<lparr>states := s'\<rparr>, Some e)
           | (s', None) \<Rightarrow>
               (c\<lparr>states := s',
                  leaves := insert (ID tx) (leaves c - set (Parents tx)),
                  txStore := (txStore c)(ID tx \<mapsto> tx\<lparr>Valid := True\<rparr>)\<rparr>,
                None)))"

text \<open>
  One pass of \<^verbatim>\<open>processMempool\<close> over the pending list: the controller afterwards, the
  new pending list \<^verbatim>\<open>newMempool\<close> and the flag \<^verbatim>\<open>anySucceeded\<close>.
\<close>

fun mempoolPass ::
  "'pk crypto \<Rightarrow> 's applyTx \<Rightarrow> 's controller \<Rightarrow> Tx list \<Rightarrow> 's controller \<times> Tx list \<times> bool"
where
  "mempoolPass cr ap c [] = (c, [], False)"
| "mempoolPass cr ap c (tx # rest) =
     (case processMempoolTx cr ap c tx of
        (c1, err) \<Rightarrow>
          (case mempoolPass cr ap c1 rest of
             (c2, newMempool, anySucceeded) \<Rightarrow>
               if err = Some ErrNoParentYet \<or> err = Some ErrMissingCriticalRefs
               then (c2, tx # newMempool, anySucceeded)
               else if err \<noteq> None then (c2, newMempool, anySucceeded)
               else (c2, newMempool, True)))"

lemma mempoolPass_length:
  "mempoolPass cr ap c pending = (c', newMempool, anySucceeded) \<Longrightarrow>
   length newMempool \<le> length pending \<and> (anySucceeded \<longrightarrow> length newMempool < length pending)"
proof (induction pending arbitrary: c c' newMempool anySucceeded)
  case Nil
  then show ?case by simp
next
  case (Cons tx rest)
  obtain c1 err where p: "processMempoolTx cr ap c tx = (c1, err)"
    by (cases "processMempoolTx cr ap c tx")
  obtain c2 new2 any2 where r: "mempoolPass cr ap c1 rest = (c2, new2, any2)"
    by (cases "mempoolPass cr ap c1 rest")
  from Cons.IH [OF r] Cons.prems p r show ?case
    by (auto split: if_splits)
qed

text \<open>\<^verbatim>\<open>processMempool\<close>: passes are repeated until one of them has no success. Every
  success shortens the pending list, so the loop ends.\<close>

function processMempool :: "'pk crypto \<Rightarrow> 's applyTx \<Rightarrow> 's controller \<Rightarrow> 's controller" where
  "processMempool cr ap c =
     (case mempoolPass cr ap c (mempool c) of
        (c1, newMempool, anySucceeded) \<Rightarrow>
          if \<not> anySucceeded then c1\<lparr>mempool := newMempool\<rparr>
          else processMempool cr ap (c1\<lparr>mempool := newMempool\<rparr>))"
  by pat_completeness auto
termination
  apply (relation "measure (\<lambda>(cr, ap, c). length (mempool c))")
   apply simp
  apply (auto dest!: mempoolPass_length [OF sym])
  done

declare processMempool.simps [simp del]

text \<open>
  One turn of \<^verbatim>\<open>mempoolLoop\<close>: either a tx is received from the channel, appended to
  the pending list and the mempool processed, or the ref-download signal arrives and
  the mempool is processed.
\<close>

datatype mempoolEvent = ReceiveTx | DownloadedRef

fun mempoolLoopStep ::
  "'pk crypto \<Rightarrow> 's applyTx \<Rightarrow> mempoolEvent \<Rightarrow> 's controller \<Rightarrow> 's controller" where
  "mempoolLoopStep cr ap ReceiveTx c =
     (case chMempool c of
        [] \<Rightarrow> c
      | tx # queued \<Rightarrow>
          processMempool cr ap (c\<lparr>chMempool := queued, mempool := mempool c @ [tx]\<rparr>))"
| "mempoolLoopStep cr ap DownloadedRef c = processMempool cr ap c"

fun mempoolLoop ::
  "'pk crypto \<Rightarrow> 's applyTx \<Rightarrow> mempoolEvent list \<Rightarrow> 's controller \<Rightarrow> 's controller" where
  "mempoolLoop cr ap [] c = c"
| "mempoolLoop cr ap (ev # evs) c = mempoolLoop cr ap evs (mempoolLoopStep cr ap ev c)"

text \<open>
  A stand-in for the primitives, used to run the functions on concrete transactions:
  the digest of a byte string is the byte string itself, a patch is written as its
  keypath, and a signature is the signer's address (the empty signature recovers no
  key).
\<close>

definition testCrypto :: "Address crypto" where
  "testCrypto =
     \<lparr>HashBytes = (\<lambda>bs. bs), PatchString = (\<lambda>p. Keypath p),
      RecoverSigningPubkey = (\<lambda>h s. if s = [] then None else Some s),
      VerifySignature = (\<lambda>pk h s. True), PubkeyAddress = (\<lambda>pk. pk)\<rparr>"

text \<open>A signed public tx without patches, as the scenario scripts build them; an
  identifier is written as the string given to \<^verbatim>\<open>IDFromString\<close>.\<close>

definition mkTx :: "ID \<Rightarrow> ID list \<Rightarrow> Address \<Rightarrow> Tx" where
  "mkTx txID parents sender =
     \<lparr>ID = txID, Parents = parents, From = sender, Sig = sender, URL = ''localhost:21231'',
      Patches = [], Recipients = [], Checkpoint = False, Valid = False, hash = EmptyHash\<rparr>"

text \<open>A pipeline in which every step succeeds and the database is left as it is.\<close>

definition applyOk :: "unit applyTx" where
  "applyOk s tx = (s, None)"

section \<open>The host (host.go)\<close>

text \<open>
  A peer, as far as the host's bookkeeping reads it: the name of its transport, the
  addresses it is reachable at, and the address it has verified (twenty zero bytes,
  \<^verbatim>\<open>types.Address{}\<close>, while it has none). \<^verbatim>\<open>peerTuples\<close> is not among the sources.
  Modelled from the spec: a peer tuple is the pair "(transport-name,
  reachable-address-string)", one for each address the peer is reachable at.
\<close>

type_synonym peerTuple = "string \<times> string"

record Peer =
  peerTransport :: string
  peerReachableAt :: "string list"
  peerAddress :: Address

definition peerTuples :: "Peer \<Rightarrow> peerTuple list" where
  "peerTuples peer = map (\<lambda>reachableAt. (peerTransport peer, reachableAt)) (peerReachableAt peer)"

definition zeroAddress :: Address where
  "zeroAddress = replicate 20 (CHR 0x00)"

record EncryptedTx =
  TxID :: ID
  EncryptedPayload :: bytes
  SenderPublicKey :: bytes

datatype Msg = MsgPut Tx | MsgPrivate EncryptedTx | MsgAck ID

text \<open>
  The fields of \<^verbatim>\<open>host\<close> that the gossip path reads or writes. The metacontroller,
  which hands a tx to the controller of the tx's state URI, is not among the sources;
  \<open>controller\<close> is that controller. \<open>sent\<close> is the log of the messages written to
  peers with \<^verbatim>\<open>WriteMsg\<close>, oldest first.
\<close>

record 's host =
  controller :: "'s controller"
  hostAddress :: Address
  peerSeenTxs :: "peerTuple \<rightharpoonup> (ID \<rightharpoonup> bool)"
  sent :: "(Peer \<times> Msg) list"

text \<open>
  What the transports and the key pairs answer, as parameters:
  \<^item> \<open>subscribers\<close>: the peers that \<^verbatim>\<open>ForEachSubscriberToStateURI\<close> yields for a state
    URI, over all transports;
  \<^item> \<open>reachable\<close>: whether \<^verbatim>\<open>EnsureConnected\<close> and \<^verbatim>\<open>WriteMsg\<close> succeed for a peer;
  \<^item> \<open>privateSends\<close>: the \<^verbatim>\<open>Private\<close> messages that the fan-out of a private tx to
    its recipients writes (peer discovery, the identity challenge and the sealing
    of the payload happen in goroutines and in code outside the sources);
  \<^item> \<open>openTx\<close>: decrypting and decoding the payload of a \<^verbatim>\<open>Private\<close> message, \<open>None\<close>
    when either fails;
  \<^item> \<open>signHash\<close>: \<^verbatim>\<open>SignHash\<close> of the host's signing key pair.
  The goroutines of a broadcast write to their peers in no fixed order; the log
  lists the messages in the order of \<open>subscribers\<close>.
\<close>

record network =
  subscribers :: "string \<Rightarrow> Peer list"
  reachable :: "Peer \<Rightarrow> bool"
  privateSends :: "Tx \<Rightarrow> (Peer \<times> Msg) list"
  openTx :: "EncryptedTx \<Rightarrow> Tx option"
  signHash :: "Hash \<Rightarrow> error + Signature"

definition NewHost :: "Address \<Rightarrow> 's controller \<Rightarrow> 's host" where
  "NewHost a c = \<lparr>controller = c, hostAddress = a, peerSeenTxs = Map.empty, sent = []\<rparr>"

text \<open>\<^verbatim>\<open>markTxSeenByPeer\<close>: for every tuple of the peer, create the inner map if there
  is none, and set the entry of the tx ID.\<close>

fun markTuples :: "(peerTuple \<rightharpoonup> (ID \<rightharpoonup> bool)) \<Rightarrow> peerTuple list \<Rightarrow> ID \<Rightarrow> (peerTuple \<rightharpoonup> (ID \<rightharpoonup> bool))"
where
  "markTuples seen [] txID = seen"
| "markTuples seen (tuple # rest) txID =
     markTuples
       (seen(tuple \<mapsto> (case seen tuple of None \<Rightarrow> Map.empty | Some m \<Rightarrow> m)(txID \<mapsto> True)))
       rest txID"

definition markTxSeenByPeer :: "'s host \<Rightarrow> Peer \<Rightarrow> ID \<Rightarrow> 's host" where
  "markTxSeenByPeer h peer txID =
     h\<lparr>peerSeenTxs := markTuples (peerSeenTxs h) (peerTuples peer) txID\<rparr>"

fun seenInTuples :: "(peerTuple \<rightharpoonup> (ID \<rightharpoonup> bool)) \<Rightarrow> peerTuple list \<Rightarrow> ID \<Rightarrow> bool" where
  "seenInTuples seen [] txID = False"
| "seenInTuples seen (tuple # rest) txID =
     (case seen tuple of
        None \<Rightarrow> seenInTuples seen rest txID
      | Some m \<Rightarrow> if m txID = Some True then True else seenInTuples seen rest txID)"

definition txSeenByPeer :: "'s host \<Rightarrow> Peer \<Rightarrow> ID \<Rightarrow> bool" where
  "txSeenByPeer h peer txID =
     (if peerAddress peer = zeroAddress then False
      else seenInTuples (peerSeenTxs h) (peerTuples peer) txID)"

text \<open>
  \<^verbatim>\<open>broadcastTx\<close>. A public tx is written as a \<^verbatim>\<open>Put\<close> to every subscriber of its
  state URI that \<^verbatim>\<open>txSeenByPeer\<close> does not report and that can be reached. The function
  reads \<^verbatim>\<open>peerSeenTxs\<close> and does not write it.
\<close>

definition broadcastTx :: "network \<Rightarrow> 's host \<Rightarrow> Tx \<Rightarrow> 's host \<times> error option" where
  "broadcastTx nw h tx =
     (if length (Sig tx) = 0 then (h, Some ErrUnsignedTx)
      else if IsPrivate tx then (h\<lparr>sent := sent h @ privateSends nw tx\<rparr>, None)
      else (h\<lparr>sent := sent h @
                 map (\<lambda>peer. (peer, MsgPut tx))
                   (filter (\<lambda>peer. \<not> txSeenByPeer h peer (ID tx) \<and> reachable nw peer)
                      (subscribers nw (URL tx)))\<rparr>,
            None))"

text \<open>The tail shared by \<^verbatim>\<open>onTxReceived\<close> and \<^verbatim>\<open>onPrivateTxReceived\<close>: unless
  \<^verbatim>\<open>HaveTx\<close> reports the tx, add it to the controller and rebroadcast it; then
  acknowledge it to the sender. Errors are logged and otherwise ignored.\<close>

definition addAndAck :: "network \<Rightarrow> 's host \<Rightarrow> Tx \<Rightarrow> Peer \<Rightarrow> 's host" where
  "addAndAck nw h tx peer =
     (let h2 = (if \<not> HaveTx (controller h) (ID tx)
                then (case AddTx (controller h) tx of
                        (c', tx', err) \<Rightarrow> fst (broadcastTx nw (h\<lparr>controller := c'\<rparr>) tx'))
                else h)
      in h2\<lparr>sent := sent h2 @ (if reachable nw peer then [(peer, MsgAck (ID tx))] else [])\<rparr>)"

definition onTxReceived :: "network \<Rightarrow> 's host \<Rightarrow> Tx \<Rightarrow> Peer \<Rightarrow> 's host" where
  "onTxReceived nw h tx peer = addAndAck nw (markTxSeenByPeer h peer (ID tx)) tx peer"

definition onPrivateTxReceived :: "network \<Rightarrow> 's host \<Rightarrow> EncryptedTx \<Rightarrow> Peer \<Rightarrow> 's host" where
  "onPrivateTxReceived nw h encryptedTx peer =
     (let h1 = markTxSeenByPeer h peer (TxID encryptedTx)
      in case openTx nw encryptedTx of
           None \<Rightarrow> h1
         | Some tx \<Rightarrow> if TxID encryptedTx \<noteq> ID tx then h1 else addAndAck nw h1 tx peer)"

definition onAckReceived :: "'s host \<Rightarrow> ID \<Rightarrow> Peer \<Rightarrow> 's host" where
  "onAckReceived h txID peer = markTxSeenByPeer h peer txID"

text \<open>\<^verbatim>\<open>SendTx\<close>: sign the tx if it has no signature, add it to the controller, and
  broadcast it.\<close>

definition SendTx :: "'pk crypto \<Rightarrow> network \<Rightarrow> 's host \<Rightarrow> Tx \<Rightarrow> 's host \<times> error option" where
  "SendTx cr nw h tx =
     (case (if length (Sig tx) = 0
            then (case signHash nw (Hash cr tx) of
                    Inl e \<Rightarrow> Inl e
                  | Inr sig \<Rightarrow> Inr (tx\<lparr>Sig := sig\<rparr>))
            else Inr tx) of
        Inl e \<Rightarrow> (h, Some e)
      | Inr tx1 \<Rightarrow>
          (case AddTx (controller h) tx1 of
             (c', tx2, Some e) \<Rightarrow> (h\<lparr>controller := c'\<rparr>, Some e)
           | (c', tx2, None) \<Rightarrow> broadcastTx nw (h\<lparr>controller := c'\<rparr>) tx2))"

text \<open>A network with one subscriber to every state URI: a reachable peer that has
  verified an address.\<close>

definition testPeer :: Peer where
  "testPeer =
     \<lparr>peerTransport = ''libp2p'', peerReachableAt = [''/ip4/10.0.0.2/tcp/21231''],
      peerAddress = ''bbbbbbbbbbbbbbbbbbbb''\<rparr>"

definition testNetwork :: network where
  "testNetwork =
     \<lparr>subscribers = (\<lambda>stateURI. [testPeer]), reachable = (\<lambda>peer. True),
      privateSends = (\<lambda>tx. []), openTx = (\<lambda>encryptedTx. None),
      signHash = (\<lambda>h. Inr ''aaaaaaaaaaaaaaaaaaaa'')\<rparr>"

section \<open>Notions used to state the properties of the transaction path\<close>

text \<open>A tx ID is validated when the store holds a tx under it that is marked valid.\<close>

definition storedValid :: "(ID \<rightharpoonup> Tx) \<Rightarrow> ID \<Rightarrow> bool" where
  "storedValid store i = (case store i of None \<Rightarrow> False | Some stored \<Rightarrow> Valid stored)"

text \<open>What the loop of \<^verbatim>\<open>validateTxIntrinsics\<close> accepts as a parent.\<close>

definition parentOk :: "(ID \<rightharpoonup> Tx) \<Rightarrow> ID \<Rightarrow> bool" where
  "parentOk store p =
     (case store p of None \<Rightarrow> False | Some ptx \<Rightarrow> Valid ptx \<or> p = GenesisTxID)"

text \<open>A store grows: no key is lost and no validated ID loses its mark.\<close>

definition storeLe :: "(ID \<rightharpoonup> Tx) \<Rightarrow> (ID \<rightharpoonup> Tx) \<Rightarrow> bool" where
  "storeLe s s' = (\<forall>i. (s i \<noteq> None \<longrightarrow> s' i \<noteq> None) \<and> (storedValid s i \<longrightarrow> storedValid s' i))"

text \<open>
  The set that the specification calls the leaves: the validated txs that no other
  validated tx lists as a parent.
\<close>

definition frontier :: "(ID \<rightharpoonup> Tx) \<Rightarrow> ID set" where
  "frontier store =
     {i. storedValid store i
         \<and> (\<forall>j tx. j \<noteq> i \<and> store j = Some tx \<and> Valid tx \<longrightarrow> i \<notin> set (Parents tx))}"

text \<open>
  A tx that is blocked by nothing but its parents: it has parents or is the genesis
  tx, its signature is good, and the pipeline accepts it whatever the database holds.
\<close>

definition applicable :: "'pk crypto \<Rightarrow> 's applyTx \<Rightarrow> Tx \<Rightarrow> bool" where
  "applicable cr ap tx =
     ((1 \<le> length (Parents tx) \<or> ID tx = GenesisTxID)
      \<and> (ID tx \<noteq> GenesisTxID \<longrightarrow>
            (\<exists>pk. RecoverSigningPubkey cr (Hash cr tx) (Sig tx) = Some pk
                \<and> VerifySignature cr pk (Hash cr tx) (Sig tx)
                \<and> PubkeyAddress cr pk = From tx))
      \<and> (\<forall>s. snd (ap s tx) = None))"

text \<open>
  A list of txs in dependency order: every parent of a tx is acceptable in the given
  store already, or is the ID of a tx earlier in the list. A chain in which each tx
  has its predecessor as its only parent is the simplest case.
\<close>

fun dependencyOrdered :: "(ID \<rightharpoonup> Tx) \<Rightarrow> ID set \<Rightarrow> Tx list \<Rightarrow> bool" where
  "dependencyOrdered store earlier [] = True"
| "dependencyOrdered store earlier (tx # rest) =
     ((\<forall>p \<in> set (Parents tx). parentOk store p \<or> p \<in> earlier)
      \<and> dependencyOrdered store (insert (ID tx) earlier) rest)"

text \<open>Txs arriving one after the other at a controller: each is added with
  \<^verbatim>\<open>AddTx\<close>, and the mempool worker receives it and processes the mempool.\<close>

fun deliver :: "'pk crypto \<Rightarrow> 's applyTx \<Rightarrow> Tx list \<Rightarrow> 's controller \<Rightarrow> 's controller" where
  "deliver cr ap [] c = c"
| "deliver cr ap (tx # rest) c =
     deliver cr ap rest (mempoolLoopStep cr ap ReceiveTx (fst (AddTx c tx)))"

section \<open>Properties of the transaction model\<close>

lemma hexdigit_inj: "i < 16 \<Longrightarrow> j < 16 \<Longrightarrow> hexdigit i = hexdigit j \<Longrightarrow> i = j"
  unfolding hexdigit_def
  by (simp add: less_Suc_eq numeral_eq_Suc, elim disjE; simp)

lemma Hex_inj: "Hex a = Hex b \<Longrightarrow> a = b"
proof (induction a arbitrary: b)
  case Nil
  then show ?case by (cases b) (simp_all add: Hex_def)
next
  case (Cons x xs)
  then obtain y ys where b: "b = y # ys" by (cases b) (simp_all add: Hex_def)
  from Cons.prems b have hd: "hexdigit (of_char x div 16) = hexdigit (of_char y div 16)"
    and md: "hexdigit (of_char x mod 16) = hexdigit (of_char y mod 16)"
    and tl: "Hex xs = Hex ys" by (simp_all add: Hex_def)
  have lx: "(of_char x :: nat) < 256" and ly: "(of_char y::nat) < 256" by simp_all
  have dx: "(of_char x :: nat) div 16 < 16" and dy: "(of_char y :: nat) div 16 < 16"
    using lx ly by (simp_all add: less_mult_imp_div_less)
  have "(of_char x :: nat) div 16 = of_char y div 16"
    using hexdigit_inj [OF dx dy hd] .
  moreover have "(of_char x :: nat) mod 16 = of_char y mod 16"
    using hexdigit_inj [OF _ _ md] by simp
  ultimately have "(of_char x :: nat) = of_char y"
    by (metis div_mult_mod_eq)
  then have "x = y" by simp
  with Cons.IH [OF tl] b show ?case by simp
qed

text \<open>
  C3, as the specification words it: the key is built from the recipients in sorted
  order, so that the order of the list does not matter. With the stand-in primitives
  (the digest of a byte string is the byte string) the key of two 20-byte addresses
  given in descending order is neither the key of the sorted list nor the key of the
  same addresses in ascending order.
\<close>

theorem PrivateRootKeyForRecipients_sorted_counterexample:
  "PrivateRootKeyForRecipients testCrypto [''bbbbbbbbbbbbbbbbbbbb'', ''aaaaaaaaaaaaaaaaaaaa'']
     \<noteq> ''private-'' @ Hex (HashBytes testCrypto
           (concat (sort [''bbbbbbbbbbbbbbbbbbbb'', ''aaaaaaaaaaaaaaaaaaaa''])))
   \<and> PrivateRootKeyForRecipients testCrypto [''bbbbbbbbbbbbbbbbbbbb'', ''aaaaaaaaaaaaaaaaaaaa'']
     \<noteq> PrivateRootKeyForRecipients testCrypto [''aaaaaaaaaaaaaaaaaaaa'', ''bbbbbbbbbbbbbbbbbbbb'']"
  by (simp add: PrivateRootKeyForRecipients_def testCrypto_def Hex_def hexdigit_def)

text \<open>
  C3, amended: \<^verbatim>\<open>PrivateRootKeyForRecipients\<close> returns \<^verbatim>\<open>"private-"\<close> followed by the hex
  encoding of the hash of the concatenation of the recipient addresses in the order
  in which the list gives them; two recipient lists yield the same key exactly when
  the hashes of their concatenations are equal.
\<close>

theorem PrivateRootKeyForRecipients_in_given_order:
  "PrivateRootKeyForRecipients cr recipients
     = ''private-'' @ Hex (HashBytes cr (concat recipients))
   \<and> ((PrivateRootKeyForRecipients cr recipients = PrivateRootKeyForRecipients cr recipients')
        = (HashBytes cr (concat recipients) = HashBytes cr (concat recipients')))"
  by (auto simp: PrivateRootKeyForRecipients_def dest: Hex_inj)

lemma checkParents_None:
  "(checkParents store ps = None)
     = (\<forall>p \<in> set ps. \<exists>ptx. store p = Some ptx \<and> (Valid ptx \<or> p = GenesisTxID))"
  by (induction ps) (auto split: option.splits)

text \<open>
  C2: intrinsic validation returns no error only if (1) the tx has at least one parent
  or its ID is the genesis ID; (2) every parent ID is a key of the tx store, and the
  stored parent is marked valid or the parent ID is the genesis ID; (3) unless the
  tx's ID is the genesis ID, a public key is recovered from the hash and the
  signature, it verifies the signature over the hash, and its address is the tx's
  \<^verbatim>\<open>From\<close>. The three conditions are also sufficient.
\<close>

theorem validateTxIntrinsics_succeeds_iff:
  "(validateTxIntrinsics cr c tx = None)
     = ((1 \<le> length (Parents tx) \<or> ID tx = GenesisTxID)
        \<and> (\<forall>p \<in> set (Parents tx).
              \<exists>ptx. txStore c p = Some ptx \<and> (Valid ptx \<or> p = GenesisTxID))
        \<and> (ID tx \<noteq> GenesisTxID \<longrightarrow>
              (\<exists>pk. RecoverSigningPubkey cr (Hash cr tx) (Sig tx) = Some pk
                  \<and> VerifySignature cr pk (Hash cr tx) (Sig tx)
                  \<and> PubkeyAddress cr pk = From tx)))"
  unfolding validateTxIntrinsics_def checkParents_None [symmetric]
  by (auto split: option.splits simp: Suc_le_eq)

theorem validateTxIntrinsics_succeeds_iff_witness:
  "validateTxIntrinsics testCrypto
       ((NewController ())\<lparr>txStore := [''one'' \<mapsto> (mkTx ''one'' [GenesisTxID] ''alice'')\<lparr>Valid := True\<rparr>]\<rparr>)
       (mkTx ''two'' [''one''] ''bob'') = None
   \<and> 1 \<le> length (Parents (mkTx ''two'' [''one''] ''bob''))
   \<and> ID (mkTx ''two'' [''one''] ''bob'') \<noteq> GenesisTxID
   \<and> RecoverSigningPubkey testCrypto (Hash testCrypto (mkTx ''two'' [''one''] ''bob''))
        (Sig (mkTx ''two'' [''one''] ''bob'')) = Some ''bob''"
  using validateTxIntrinsics_succeeds_iff [of testCrypto
      "(NewController ())\<lparr>txStore := [''one'' \<mapsto> (mkTx ''one'' [GenesisTxID] ''alice'')\<lparr>Valid := True\<rparr>]\<rparr>"
      "mkTx ''two'' [''one''] ''bob''"]
  by (simp add: testCrypto_def mkTx_def NewController_def GenesisTxID_def)

subsection \<open>The mempool\<close>


lemma processMempoolTx_frame:
  "processMempoolTx cr ap c tx = (c', err) \<Longrightarrow>
     txs c' = txs c \<and> mempool c' = mempool c \<and> chMempool c' = chMempool c"
  by (auto simp: processMempoolTx_def split: option.splits prod.splits)

lemma processMempoolTx_failure:
  "processMempoolTx cr ap c tx = (c', Some e) \<Longrightarrow>
     txStore c' = txStore c \<and> leaves c' = leaves c
     \<and> (validateTxIntrinsics cr c tx = Some e
        \<or> validateTxIntrinsics cr c tx = None \<and> snd (ap (states c) tx) = Some e)"
  by (auto simp: processMempoolTx_def split: option.splits prod.splits)

lemma processMempoolTx_success:
  "processMempoolTx cr ap c tx = (c', None) \<Longrightarrow>
     validateTxIntrinsics cr c tx = None \<and> snd (ap (states c) tx) = None
     \<and> txStore c' = (txStore c)(ID tx \<mapsto> tx\<lparr>Valid := True\<rparr>)
     \<and> leaves c' = insert (ID tx) (leaves c - set (Parents tx))"
  by (auto simp: processMempoolTx_def split: option.splits prod.splits)

lemma processMempoolTx_succeeds:
  "validateTxIntrinsics cr c tx = None \<Longrightarrow> snd (ap (states c) tx) = None \<Longrightarrow>
     snd (processMempoolTx cr ap c tx) = None"
  by (auto simp: processMempoolTx_def split: option.splits prod.splits)

lemma validateTxIntrinsics_store:
  "txStore c = txStore d \<Longrightarrow> validateTxIntrinsics cr c tx = validateTxIntrinsics cr d tx"
  by (simp add: validateTxIntrinsics_def)

lemma storeLe_refl: "storeLe s s" by (simp add: storeLe_def)

lemma storeLe_trans: "storeLe a b \<Longrightarrow> storeLe b c \<Longrightarrow> storeLe a c"
  unfolding storeLe_def by blast

lemma storeLe_parentOk:
  assumes "storeLe s s'" "parentOk s p" shows "parentOk s' p"
proof -
  from assms(2) obtain ptx where p: "s p = Some ptx" "Valid ptx \<or> p = GenesisTxID"
    by (auto simp: parentOk_def split: option.splits)
  from assms(1) p(1) obtain ptx' where p': "s' p = Some ptx'"
    unfolding storeLe_def by blast
  from assms(1) p have "p \<noteq> GenesisTxID \<Longrightarrow> storedValid s' p"
    unfolding storeLe_def by (auto simp: storedValid_def)
  with p' show ?thesis by (auto simp: parentOk_def storedValid_def)
qed

lemma processMempoolTx_storeLe:
  assumes "processMempoolTx cr ap c tx = (c', err)"
  shows "storeLe (txStore c) (txStore c')"
proof (cases err)
  case None
  with processMempoolTx_success [of cr ap c tx c'] assms
  have "txStore c' = (txStore c)(ID tx \<mapsto> tx\<lparr>Valid := True\<rparr>)" by simp
  then show ?thesis by (simp add: storeLe_def storedValid_def)
next
  case (Some e)
  with processMempoolTx_failure [of cr ap c tx c' e] assms
  have "txStore c' = txStore c" by simp
  then show ?thesis by (simp add: storeLe_def)
qed

lemma mempoolPass_frame:
  "mempoolPass cr ap c pending = (c', new, any) \<Longrightarrow>
     txs c' = txs c \<and> mempool c' = mempool c \<and> chMempool c' = chMempool c
     \<and> storeLe (txStore c) (txStore c') \<and> set new \<subseteq> set pending"
proof (induction pending arbitrary: c c' new any)
  case Nil
  then show ?case by (simp add: storeLe_refl)
next
  case (Cons tx rest)
  obtain c1 err where p: "processMempoolTx cr ap c tx = (c1, err)"
    by (cases "processMempoolTx cr ap c tx")
  obtain c2 new2 any2 where r: "mempoolPass cr ap c1 rest = (c2, new2, any2)"
    by (cases "mempoolPass cr ap c1 rest")
  from Cons.prems p r have c': "c' = c2" and new: "set new \<subseteq> insert tx (set new2)"
    by (auto split: if_splits)
  have "storeLe (txStore c) (txStore c2)"
    using storeLe_trans [OF processMempoolTx_storeLe [OF p]] Cons.IH [OF r] by blast
  with Cons.IH [OF r] processMempoolTx_frame [OF p] c' new
  show ?case by auto
qed


lemma checkParents_parentOk:
  "(checkParents store ps = None) = (\<forall>p \<in> set ps. parentOk store p)"
  by (induction ps) (auto simp: parentOk_def split: option.splits)

lemma checkParents_error:
  "checkParents store ps = Some e \<Longrightarrow> e = ErrNoParentYet"
  by (induction ps) (auto split: option.splits if_splits)

lemma applicable_validate:
  assumes "applicable cr ap tx"
  shows "validateTxIntrinsics cr c tx =
           (if \<forall>p \<in> set (Parents tx). parentOk (txStore c) p then None else Some ErrNoParentYet)"
proof (cases "checkParents (txStore c) (Parents tx)")
  case None
  with assms show ?thesis
    unfolding validateTxIntrinsics_def applicable_def
    by (auto simp: checkParents_parentOk [symmetric] Suc_le_eq)
next
  case (Some e)
  then have e: "e = ErrNoParentYet" by (rule checkParents_error)
  from Some have "\<not> (\<forall>p \<in> set (Parents tx). parentOk (txStore c) p)"
    by (simp add: checkParents_parentOk [symmetric])
  with assms Some e show ?thesis
    unfolding validateTxIntrinsics_def applicable_def
    by (auto simp: Suc_le_eq)
qed

lemma applicable_process:
  assumes "applicable cr ap tx" "processMempoolTx cr ap c tx = (c', err)"
  shows "err = (if \<forall>p \<in> set (Parents tx). parentOk (txStore c) p then None else Some ErrNoParentYet)"
proof -
  from assms(1) have ap: "snd (ap (states c) tx) = None" by (simp add: applicable_def)
  show ?thesis
    using assms(2) applicable_validate [OF assms(1), of c] ap
    by (auto simp: processMempoolTx_def split: option.splits prod.splits if_splits)
qed

lemma mempoolPass_keeps:
  assumes "mempoolPass cr ap c pending = (c', new, any)" "tx \<in> set pending" "applicable cr ap tx"
  shows "storedValid (txStore c') (ID tx) \<or> tx \<in> set new"
  using assms
proof (induction pending arbitrary: c c' new any)
  case Nil
  then show ?case by simp
next
  case (Cons x rest)
  obtain c1 err where p: "processMempoolTx cr ap c x = (c1, err)"
    by (cases "processMempoolTx cr ap c x")
  obtain c2 new2 any2 where r: "mempoolPass cr ap c1 rest = (c2, new2, any2)"
    by (cases "mempoolPass cr ap c1 rest")
  from Cons.prems(1) p r have c': "c' = c2" by (auto split: if_splits)
  show ?case
  proof (cases "tx \<in> set rest")
    case True
    from Cons.IH [OF r True Cons.prems(3)] Cons.prems(1) p r c' show ?thesis
      by (auto split: if_splits)
  next
    case False
    with Cons.prems(2) have x: "x = tx" by simp
    from applicable_process [OF Cons.prems(3) p [unfolded x]]
    have "err = None \<or> err = Some ErrNoParentYet" by (auto split: if_splits)
    then show ?thesis
    proof
      assume "err = Some ErrNoParentYet"
      with Cons.prems(1) p r x show ?thesis by auto
    next
      assume e: "err = None"
      with processMempoolTx_success [of cr ap c tx c1] p x
      have "storedValid (txStore c1) (ID tx)" by (simp add: storedValid_def)
      moreover from mempoolPass_frame [OF r] have "storeLe (txStore c1) (txStore c2)" by simp
      ultimately show ?thesis using c' by (simp add: storeLe_def)
    qed
  qed
qed

lemma mempoolPass_no_success:
  assumes "mempoolPass cr ap c pending = (c', new, False)"
  shows "txStore c' = txStore c \<and> leaves c' = leaves c
         \<and> (\<forall>tx \<in> set pending. validateTxIntrinsics cr c tx \<noteq> None \<or> (\<exists>s. snd (ap s tx) \<noteq> None))"
  using assms
proof (induction pending arbitrary: c c' new)
  case Nil
  then show ?case by simp
next
  case (Cons x rest)
  obtain c1 err where p: "processMempoolTx cr ap c x = (c1, err)"
    by (cases "processMempoolTx cr ap c x")
  obtain c2 new2 any2 where r: "mempoolPass cr ap c1 rest = (c2, new2, any2)"
    by (cases "mempoolPass cr ap c1 rest")
  from Cons.prems p r have c': "c' = c2" and any2: "any2 = False" and err: "err \<noteq> None"
    by (auto split: if_splits)
  from err obtain e where e: "err = Some e" by auto
  note f = processMempoolTx_failure [OF p [unfolded e]]
  note ih = Cons.IH [OF r [unfolded any2]]
  have v: "\<And>tx. validateTxIntrinsics cr c1 tx = validateTxIntrinsics cr c tx"
    using f by (simp add: validateTxIntrinsics_def)
  from f have "validateTxIntrinsics cr c x \<noteq> None \<or> (\<exists>s. snd (ap s x) \<noteq> None)"
    by auto
  with ih f c' v show ?case by simp
qed


lemma processMempool_unfold:
  "processMempool cr ap c =
     (case mempoolPass cr ap c (mempool c) of
        (c1, newMempool, anySucceeded) \<Rightarrow>
          if \<not> anySucceeded then c1\<lparr>mempool := newMempool\<rparr>
          else processMempool cr ap (c1\<lparr>mempool := newMempool\<rparr>))"
  by (rule processMempool.simps)

lemma processMempool_fixpoint:
  assumes "\<forall>t \<in> T. applicable cr ap t \<and> (storedValid (txStore c) (ID t) \<or> t \<in> set (mempool c))"
  shows "storeLe (txStore c) (txStore (processMempool cr ap c))
         \<and> txs (processMempool cr ap c) = txs c
         \<and> chMempool (processMempool cr ap c) = chMempool c
         \<and> (\<forall>t \<in> T. storedValid (txStore (processMempool cr ap c)) (ID t)
                    \<or> t \<in> set (mempool (processMempool cr ap c)))
         \<and> (\<forall>tx \<in> set (mempool (processMempool cr ap c)).
               validateTxIntrinsics cr (processMempool cr ap c) tx \<noteq> None
               \<or> (\<exists>s. snd (ap s tx) \<noteq> None))"
  using assms
proof (induction cr ap c rule: processMempool.induct)
  case (1 cr ap c)
  obtain c1 new any where p: "mempoolPass cr ap c (mempool c) = (c1, new, any)"
    by (cases "mempoolPass cr ap c (mempool c)")
  let ?c2 = "c1\<lparr>mempool := new\<rparr>"
  note fr = mempoolPass_frame [OF p]
  have J2: "\<forall>t \<in> T. applicable cr ap t \<and> (storedValid (txStore ?c2) (ID t) \<or> t \<in> set (mempool ?c2))"
  proof
    fix t assume t: "t \<in> T"
    with "1.prems" have a: "applicable cr ap t"
      and d: "storedValid (txStore c) (ID t) \<or> t \<in> set (mempool c)" by auto
    from d have "storedValid (txStore c1) (ID t) \<or> t \<in> set new"
    proof
      assume "storedValid (txStore c) (ID t)"
      with fr show ?thesis by (simp add: storeLe_def)
    next
      assume "t \<in> set (mempool c)"
      from mempoolPass_keeps [OF p this a] show ?thesis .
    qed
    with a show "applicable cr ap t \<and> (storedValid (txStore ?c2) (ID t) \<or> t \<in> set (mempool ?c2))"
      by simp
  qed
  show ?case
  proof (cases any)
    case False
    have r: "processMempool cr ap c = ?c2"
      by (subst processMempool_unfold) (simp add: p False)
    from False have anyF: "any = False" by simp
    note ns = mempoolPass_no_success [OF p [unfolded anyF]]
    have v: "\<And>tx. validateTxIntrinsics cr ?c2 tx = validateTxIntrinsics cr c tx"
      using ns by (simp add: validateTxIntrinsics_def)
    have "\<forall>tx \<in> set new. validateTxIntrinsics cr ?c2 tx \<noteq> None \<or> (\<exists>s. snd (ap s tx) \<noteq> None)"
      using ns fr unfolding v by blast
    with J2 fr show ?thesis unfolding r by simp
  next
    case True
    have r: "processMempool cr ap c = processMempool cr ap ?c2"
      by (subst processMempool_unfold) (simp add: p True)
    have ih: "storeLe (txStore ?c2) (txStore (processMempool cr ap ?c2))
         \<and> txs (processMempool cr ap ?c2) = txs ?c2
         \<and> chMempool (processMempool cr ap ?c2) = chMempool ?c2
         \<and> (\<forall>t \<in> T. storedValid (txStore (processMempool cr ap ?c2)) (ID t)
                    \<or> t \<in> set (mempool (processMempool cr ap ?c2)))
         \<and> (\<forall>tx \<in> set (mempool (processMempool cr ap ?c2)).
               validateTxIntrinsics cr (processMempool cr ap ?c2) tx \<noteq> None
               \<or> (\<exists>s. snd (ap s tx) \<noteq> None))"
      using "1.IH" [OF p [symmetric] refl _ J2] True by simp
    have "storeLe (txStore c) (txStore (processMempool cr ap ?c2))"
      using storeLe_trans [of "txStore c" "txStore c1"] fr ih by simp
    with ih fr show ?thesis unfolding r by simp
  qed
qed

lemma chain_applied_aux:
  assumes fixp: "\<forall>tx \<in> set (mempool c'). validateTxIntrinsics cr c' tx \<noteq> None \<or> (\<exists>s. snd (ap s tx) \<noteq> None)"
    and keep: "\<forall>t \<in> set chain. storedValid (txStore c') (ID t) \<or> t \<in> set (mempool c')"
    and app: "\<forall>t \<in> set chain. applicable cr ap t"
    and le: "storeLe store (txStore c')"
  shows "dependencyOrdered store earlier ts \<Longrightarrow> set ts \<subseteq> set chain \<Longrightarrow>
         \<forall>p \<in> earlier. storedValid (txStore c') p \<Longrightarrow>
         \<forall>t \<in> set ts. storedValid (txStore c') (ID t) \<and> t \<notin> set (mempool c')"
proof (induction ts arbitrary: earlier)
  case Nil
  then show ?case by simp
next
  case (Cons t rest)
  have tin: "t \<in> set chain" using Cons.prems(2) by simp
  with app have a: "applicable cr ap t" by blast
  have par: "\<forall>p \<in> set (Parents t). parentOk (txStore c') p"
  proof
    fix p assume "p \<in> set (Parents t)"
    with Cons.prems(1) have "parentOk store p \<or> p \<in> earlier" by simp
    then show "parentOk (txStore c') p"
    proof
      assume "parentOk store p" with le show ?thesis by (rule storeLe_parentOk)
    next
      assume "p \<in> earlier"
      with Cons.prems(3) have "storedValid (txStore c') p" by blast
      then show ?thesis by (auto simp: storedValid_def parentOk_def split: option.splits)
    qed
  qed
  have v: "validateTxIntrinsics cr c' t = None"
    using applicable_validate [OF a, of c'] par by simp
  from a have "\<forall>s. snd (ap s t) = None" by (simp add: applicable_def)
  with v fixp have notin: "t \<notin> set (mempool c')" by auto
  with keep tin have sv: "storedValid (txStore c') (ID t)" by blast
  have "\<forall>t \<in> set rest. storedValid (txStore c') (ID t) \<and> t \<notin> set (mempool c')"
    using Cons.IH [of "insert (ID t) earlier"] Cons.prems sv by simp
  with sv notin show ?case by simp
qed

lemma mempoolPass_append:
  "mempoolPass cr ap c (xs @ ys) =
     (case mempoolPass cr ap c xs of
        (c1, n1, a1) \<Rightarrow>
          (case mempoolPass cr ap c1 ys of
             (c2, n2, a2) \<Rightarrow> (c2, n1 @ n2, a1 \<or> a2)))"
  by (induction xs arbitrary: c) (auto split: prod.splits)

text \<open>
  C5: in a pass over the pending list, the controller moves from tx to tx; a tx whose
  processing returns \<^verbatim>\<open>ErrNoParentYet\<close> or \<^verbatim>\<open>ErrMissingCriticalRefs\<close> is kept in the new
  pending list, a tx with any other error is left out of it, and a tx processed
  without error is left out and sets \<^verbatim>\<open>anySucceeded\<close>. \<^verbatim>\<open>processMempool\<close> runs another
  pass exactly when the pass before had a success. Consequently, when the pending
  list holds a chain (more generally, a dependency-ordered list) of txs that nothing
  but their parents blocks, and the parents of the first are acceptable, processing
  the mempool validates every tx of the chain and leaves none of them pending,
  whatever the order in which the list holds them.
\<close>

theorem processMempool_retry_drop_converge:
  "mempoolPass cr ap c (earlier @ tx # later) =
     (case mempoolPass cr ap c earlier of
        (c1, kept1, any1) \<Rightarrow>
          (case processMempoolTx cr ap c1 tx of
             (c2, err) \<Rightarrow>
               (case mempoolPass cr ap c2 later of
                  (c3, kept3, any3) \<Rightarrow>
                    (c3,
                     kept1 @ (if err = Some ErrNoParentYet \<or> err = Some ErrMissingCriticalRefs
                              then [tx] else []) @ kept3,
                     any1 \<or> err = None \<or> any3))))
   \<and> processMempool cr ap c =
       (case mempoolPass cr ap c (mempool c) of
          (c1, newMempool, anySucceeded) \<Rightarrow>
            if anySucceeded then processMempool cr ap (c1\<lparr>mempool := newMempool\<rparr>)
            else c1\<lparr>mempool := newMempool\<rparr>)
   \<and> ((\<forall>t \<in> set chain. applicable cr ap t \<and> t \<in> set (mempool c))
        \<and> dependencyOrdered (txStore c) {} chain \<longrightarrow>
       (\<forall>t \<in> set chain. storedValid (txStore (processMempool cr ap c)) (ID t)
                         \<and> t \<notin> set (mempool (processMempool cr ap c))))"
proof (intro conjI impI)
  show "mempoolPass cr ap c (earlier @ tx # later) =
     (case mempoolPass cr ap c earlier of
        (c1, kept1, any1) \<Rightarrow>
          (case processMempoolTx cr ap c1 tx of
             (c2, err) \<Rightarrow>
               (case mempoolPass cr ap c2 later of
                  (c3, kept3, any3) \<Rightarrow>
                    (c3,
                     kept1 @ (if err = Some ErrNoParentYet \<or> err = Some ErrMissingCriticalRefs
                              then [tx] else []) @ kept3,
                     any1 \<or> err = None \<or> any3))))"
    by (auto simp: mempoolPass_append split: prod.splits)
next
  show "processMempool cr ap c =
       (case mempoolPass cr ap c (mempool c) of
          (c1, newMempool, anySucceeded) \<Rightarrow>
            if anySucceeded then processMempool cr ap (c1\<lparr>mempool := newMempool\<rparr>)
            else c1\<lparr>mempool := newMempool\<rparr>)"
    by (subst processMempool_unfold) (simp split: prod.splits)
next
  assume a: "(\<forall>t \<in> set chain. applicable cr ap t \<and> t \<in> set (mempool c))
        \<and> dependencyOrdered (txStore c) {} chain"
  then have J: "\<forall>t \<in> set chain. applicable cr ap t
       \<and> (storedValid (txStore c) (ID t) \<or> t \<in> set (mempool c))" by blast
  note fp = processMempool_fixpoint [OF J]
  show "\<forall>t \<in> set chain. storedValid (txStore (processMempool cr ap c)) (ID t)
                         \<and> t \<notin> set (mempool (processMempool cr ap c))"
  proof (rule chain_applied_aux [where chain = chain and store = "txStore c" and earlier = "{}"
        and cr = cr and ap = ap])
    show "\<forall>tx\<in>set (mempool (processMempool cr ap c)).
       validateTxIntrinsics cr (processMempool cr ap c) tx \<noteq> None \<or> (\<exists>s. snd (ap s tx) \<noteq> None)"
      using fp by blast
    show "\<forall>t\<in>set chain. storedValid (txStore (processMempool cr ap c)) (ID t)
        \<or> t \<in> set (mempool (processMempool cr ap c))" using fp by blast
    show "\<forall>t\<in>set chain. applicable cr ap t" using a by blast
    show "storeLe (txStore c) (txStore (processMempool cr ap c))" using fp by blast
    show "dependencyOrdered (txStore c) {} chain" using a by blast
    show "set chain \<subseteq> set chain" by simp
    show "\<forall>p\<in>{}. storedValid (txStore (processMempool cr ap c)) p" by simp
  qed
qed

theorem processMempool_retry_drop_converge_witness:
  "applicable testCrypto applyOk (mkTx ''two'' [''one''] ''bob'')
   \<and> applicable testCrypto applyOk (mkTx ''three'' [''two''] ''alice'')
   \<and> applicable testCrypto applyOk (mkTx ''four'' [''three''] ''bob'')
   \<and> mempool ((NewController ())\<lparr>txStore := [''one'' \<mapsto> (mkTx ''one'' [GenesisTxID] ''alice'')\<lparr>Valid := True\<rparr>],
           mempool := [mkTx ''four'' [''three''] ''bob'', mkTx ''three'' [''two''] ''alice'',
                       mkTx ''two'' [''one''] ''bob'']\<rparr>)
       = [mkTx ''four'' [''three''] ''bob'', mkTx ''three'' [''two''] ''alice'',
          mkTx ''two'' [''one''] ''bob'']
   \<and> dependencyOrdered [''one'' \<mapsto> (mkTx ''one'' [GenesisTxID] ''alice'')\<lparr>Valid := True\<rparr>] {}
        [mkTx ''two'' [''one''] ''bob'', mkTx ''three'' [''two''] ''alice'',
         mkTx ''four'' [''three''] ''bob'']
   \<and> storedValid (txStore (processMempool testCrypto applyOk
        ((NewController ())\<lparr>txStore := [''one'' \<mapsto> (mkTx ''one'' [GenesisTxID] ''alice'')\<lparr>Valid := True\<rparr>],
           mempool := [mkTx ''four'' [''three''] ''bob'', mkTx ''three'' [''two''] ''alice'',
                       mkTx ''two'' [''one''] ''bob'']\<rparr>))) ''four''
   \<and> mkTx ''four'' [''three''] ''bob'' \<notin> set (mempool (processMempool testCrypto applyOk
        ((NewController ())\<lparr>txStore := [''one'' \<mapsto> (mkTx ''one'' [GenesisTxID] ''alice'')\<lparr>Valid := True\<rparr>],
           mempool := [mkTx ''four'' [''three''] ''bob'', mkTx ''three'' [''two''] ''alice'',
                       mkTx ''two'' [''one''] ''bob'']\<rparr>)))"
proof -
  let ?c = "(NewController ())\<lparr>txStore := [''one'' \<mapsto> (mkTx ''one'' [GenesisTxID] ''alice'')\<lparr>Valid := True\<rparr>],
           mempool := [mkTx ''four'' [''three''] ''bob'', mkTx ''three'' [''two''] ''alice'',
                       mkTx ''two'' [''one''] ''bob'']\<rparr>"
  let ?chain = "[mkTx ''two'' [''one''] ''bob'', mkTx ''three'' [''two''] ''alice'',
                mkTx ''four'' [''three''] ''bob'']"
  have h1: "\<forall>t \<in> set ?chain. applicable testCrypto applyOk t \<and> t \<in> set (mempool ?c)"
    by (simp add: applicable_def testCrypto_def applyOk_def mkTx_def GenesisTxID_def)
  have h2: "dependencyOrdered (txStore ?c) {} ?chain"
    by (simp add: mkTx_def parentOk_def)
  from processMempool_retry_drop_converge [of testCrypto applyOk ?c "[]"
      "mkTx ''four'' [''three''] ''bob''"
      "[mkTx ''three'' [''two''] ''alice'', mkTx ''two'' [''one''] ''bob'']" ?chain]
  have "(\<forall>t \<in> set ?chain. applicable testCrypto applyOk t \<and> t \<in> set (mempool ?c))
        \<and> dependencyOrdered (txStore ?c) {} ?chain \<longrightarrow>
       (\<forall>t \<in> set ?chain. storedValid (txStore (processMempool testCrypto applyOk ?c)) (ID t)
                         \<and> t \<notin> set (mempool (processMempool testCrypto applyOk ?c)))"
    by (rule conjunct2 [THEN conjunct2])
  with h1 h2 have "\<forall>t \<in> set ?chain. storedValid (txStore (processMempool testCrypto applyOk ?c)) (ID t)
                         \<and> t \<notin> set (mempool (processMempool testCrypto applyOk ?c))"
    by blast
  then have "storedValid (txStore (processMempool testCrypto applyOk ?c)) (ID (mkTx ''four'' [''three''] ''bob''))
     \<and> mkTx ''four'' [''three''] ''bob'' \<notin> set (mempool (processMempool testCrypto applyOk ?c))"
    by simp
  moreover have "ID (mkTx ''four'' [''three''] ''bob'') = ''four''" by (simp add: mkTx_def)
  moreover have "txStore ?c = [''one'' \<mapsto> (mkTx ''one'' [GenesisTxID] ''alice'')\<lparr>Valid := True\<rparr>]"
    by (simp add: NewController_def)
  ultimately show ?thesis using h1 h2 by simp
qed

subsection \<open>The leaves\<close>

lemma frontier_listed:
  "store j = Some t \<Longrightarrow> Valid t \<Longrightarrow> j \<noteq> i \<Longrightarrow> i \<in> set (Parents t) \<Longrightarrow> i \<notin> frontier store"
  by (auto simp: frontier_def)

text \<open>
  C1, as the specification words it. Three txs arrive at a fresh controller: a genesis
  tx that names itself and a tx \<open>X\<close> as parents, a tx \<open>A\<close> whose parent is the genesis ID,
  and \<open>X\<close> whose parent is \<open>A\<close>. The genesis ID is accepted as a parent without being
  valid, so \<open>A\<close> and \<open>X\<close> are validated first and the genesis tx last. Afterwards the
  genesis tx is marked valid, the leaves set is \<open>{genesis}\<close>, although the genesis ID
  is listed in that tx's own parents, and although another validated tx, \<open>A\<close>, lists
  it as a parent.
\<close>

theorem leaves_counterexample:
  "leaves (deliver testCrypto applyOk
       [mkTx GenesisTxID [GenesisTxID, ''X''] ''alice'', mkTx ''A'' [GenesisTxID] ''bob'',
        mkTx ''X'' [''A''] ''carol'']
       (NewController ())) = {GenesisTxID}
   \<and> txStore (deliver testCrypto applyOk
       [mkTx GenesisTxID [GenesisTxID, ''X''] ''alice'', mkTx ''A'' [GenesisTxID] ''bob'',
        mkTx ''X'' [''A''] ''carol'']
       (NewController ())) GenesisTxID
       = Some ((mkTx GenesisTxID [GenesisTxID, ''X''] ''alice'')\<lparr>Valid := True\<rparr>)
   \<and> GenesisTxID \<in> set (Parents (mkTx GenesisTxID [GenesisTxID, ''X''] ''alice''))
   \<and> GenesisTxID \<notin> frontier (txStore (deliver testCrypto applyOk
       [mkTx GenesisTxID [GenesisTxID, ''X''] ''alice'', mkTx ''A'' [GenesisTxID] ''bob'',
        mkTx ''X'' [''A''] ''carol'']
       (NewController ())))"
proof -
  let ?c = "deliver testCrypto applyOk
       [mkTx GenesisTxID [GenesisTxID, ''X''] ''alice'', mkTx ''A'' [GenesisTxID] ''bob'',
        mkTx ''X'' [''A''] ''carol'']
       (NewController ())"
  have l: "leaves ?c = {GenesisTxID}"
    by (simp add: testCrypto_def applyOk_def mkTx_def NewController_def AddTx_def
      processMempool.simps processMempoolTx_def validateTxIntrinsics_def GenesisTxID_def Hash_def
      EmptyHash_def txBytes_def Let_def)
  have g: "txStore ?c GenesisTxID = Some ((mkTx GenesisTxID [GenesisTxID, ''X''] ''alice'')\<lparr>Valid := True\<rparr>)"
    by (simp add: testCrypto_def applyOk_def mkTx_def NewController_def AddTx_def
      processMempool.simps processMempoolTx_def validateTxIntrinsics_def GenesisTxID_def Hash_def
      EmptyHash_def txBytes_def Let_def)
  have a: "txStore ?c ''A'' = Some ((mkTx ''A'' [GenesisTxID] ''bob'')\<lparr>Valid := True\<rparr>)"
    by (simp add: testCrypto_def applyOk_def mkTx_def NewController_def AddTx_def
      processMempool.simps processMempoolTx_def validateTxIntrinsics_def GenesisTxID_def Hash_def
      EmptyHash_def txBytes_def Let_def)
  have "GenesisTxID \<notin> frontier (txStore ?c)"
    by (rule frontier_listed [where store = "txStore ?c" and j = "''A''", OF a])
       (simp_all add: mkTx_def GenesisTxID_def)
  with l g show ?thesis by (simp add: mkTx_def)
qed

text \<open>
  C1, amended: after the controller has successfully processed a tx, the leaves set is
  the former leaves set without the tx's parents and with the tx's ID; so the tx's own
  ID is present and every parent ID other than the tx's own ID is absent. If before
  the step the leaves set was the set of validated txs that no other validated tx
  lists as a parent, the tx was not validated yet, and no other validated tx listed it
  as a parent, then the leaves set is that set after the step as well.
\<close>

theorem processMempoolTx_leaves:
  "processMempoolTx cr ap c tx = (c', None) \<longrightarrow>
     leaves c' = insert (ID tx) (leaves c - set (Parents tx))
     \<and> ID tx \<in> leaves c'
     \<and> (\<forall>p \<in> set (Parents tx). p \<noteq> ID tx \<longrightarrow> p \<notin> leaves c')
     \<and> (leaves c = frontier (txStore c)
        \<and> \<not> storedValid (txStore c) (ID tx)
        \<and> (\<forall>j t. j \<noteq> ID tx \<and> txStore c j = Some t \<and> Valid t \<longrightarrow> ID tx \<notin> set (Parents t))
        \<longrightarrow> leaves c' = frontier (txStore c'))"
proof
  assume p: "processMempoolTx cr ap c tx = (c', None)"
  note s = processMempoolTx_success [OF p]
  have l: "leaves c' = insert (ID tx) (leaves c - set (Parents tx))" using s by simp
  have st: "txStore c' = (txStore c)(ID tx \<mapsto> tx\<lparr>Valid := True\<rparr>)" using s by simp
  have inv: "leaves c' = frontier (txStore c')"
    if f: "leaves c = frontier (txStore c)"
      and nv: "\<not> storedValid (txStore c) (ID tx)"
      and nl: "\<forall>j t. j \<noteq> ID tx \<and> txStore c j = Some t \<and> Valid t \<longrightarrow> ID tx \<notin> set (Parents t)"
  proof (rule set_eqI)
    fix i
    show "i \<in> leaves c' \<longleftrightarrow> i \<in> frontier (txStore c')"
    proof (cases "i = ID tx")
      case True
      have "ID tx \<in> frontier (txStore c')"
        using nl unfolding frontier_def st by (auto simp: storedValid_def)
      with True l show ?thesis by simp
    next
      case False
      have "i \<in> frontier (txStore c') \<longleftrightarrow> i \<in> frontier (txStore c) \<and> i \<notin> set (Parents tx)"
        using False nv unfolding frontier_def st
        by (auto simp: storedValid_def split: option.splits if_splits)
      with False l f show ?thesis by simp
    qed
  qed
  from l inv show "leaves c' = insert (ID tx) (leaves c - set (Parents tx))
     \<and> ID tx \<in> leaves c'
     \<and> (\<forall>p \<in> set (Parents tx). p \<noteq> ID tx \<longrightarrow> p \<notin> leaves c')
     \<and> (leaves c = frontier (txStore c)
        \<and> \<not> storedValid (txStore c) (ID tx)
        \<and> (\<forall>j t. j \<noteq> ID tx \<and> txStore c j = Some t \<and> Valid t \<longrightarrow> ID tx \<notin> set (Parents t))
        \<longrightarrow> leaves c' = frontier (txStore c'))"
    by auto
qed


theorem processMempoolTx_leaves_witness:
  "processMempoolTx testCrypto applyOk
       ((NewController ())\<lparr>txStore := [''one'' \<mapsto> (mkTx ''one'' [GenesisTxID] ''alice'')\<lparr>Valid := True\<rparr>],
                            leaves := {''one''}\<rparr>)
       (mkTx ''two'' [''one''] ''bob'')
     = ((NewController ())\<lparr>txStore := [''one'' \<mapsto> (mkTx ''one'' [GenesisTxID] ''alice'')\<lparr>Valid := True\<rparr>,
                                       ''two'' \<mapsto> (mkTx ''two'' [''one''] ''bob'')\<lparr>Valid := True\<rparr>],
                            leaves := {''two''}\<rparr>, None)
   \<and> {''one''} = frontier [''one'' \<mapsto> (mkTx ''one'' [GenesisTxID] ''alice'')\<lparr>Valid := True\<rparr>]
   \<and> {''two''} = frontier [''one'' \<mapsto> (mkTx ''one'' [GenesisTxID] ''alice'')\<lparr>Valid := True\<rparr>,
                           ''two'' \<mapsto> (mkTx ''two'' [''one''] ''bob'')\<lparr>Valid := True\<rparr>]"
proof -
  let ?one = "(mkTx ''one'' [GenesisTxID] ''alice'')\<lparr>Valid := True\<rparr>"
  let ?two = "mkTx ''two'' [''one''] ''bob''"
  let ?c = "(NewController ())\<lparr>txStore := [''one'' \<mapsto> ?one], leaves := {''one''}\<rparr>"
  let ?c' = "(NewController ())\<lparr>txStore := [''one'' \<mapsto> ?one, ''two'' \<mapsto> ?two\<lparr>Valid := True\<rparr>],
                            leaves := {''two''}\<rparr>"
  have p: "processMempoolTx testCrypto applyOk ?c ?two = (?c', None)"
    by (simp add: processMempoolTx_def validateTxIntrinsics_def testCrypto_def applyOk_def
          mkTx_def NewController_def GenesisTxID_def)
  have f: "leaves ?c = frontier (txStore ?c)"
    by (auto simp: frontier_def storedValid_def NewController_def mkTx_def GenesisTxID_def
          split: if_splits)
  have nv: "\<not> storedValid (txStore ?c) (ID ?two)"
    by (simp add: storedValid_def NewController_def mkTx_def)
  have nl: "\<forall>j t. j \<noteq> ID ?two \<and> txStore ?c j = Some t \<and> Valid t \<longrightarrow> ID ?two \<notin> set (Parents t)"
    by (auto simp: NewController_def mkTx_def GenesisTxID_def split: if_splits)
  from processMempoolTx_leaves [of testCrypto applyOk ?c ?two ?c'] p f nv nl
  have "leaves ?c' = frontier (txStore ?c')" by blast
  with p f show ?thesis by (simp add: NewController_def)
qed

subsection \<open>The host\<close>

lemma markTuples_keeps:
  "\<exists>m. seen tuple = Some m \<and> m txID = Some True \<Longrightarrow>
   \<exists>m. markTuples seen tuples txID tuple = Some m \<and> m txID = Some True"
  by (induction tuples arbitrary: seen) (auto split: option.splits)

lemma markTuples_marks:
  "tuple \<in> set tuples \<Longrightarrow> \<exists>m. markTuples seen tuples txID tuple = Some m \<and> m txID = Some True"
proof (induction tuples arbitrary: seen)
  case Nil
  then show ?case by simp
next
  case (Cons t rest)
  show ?case
  proof (cases "tuple = t")
    case True
    show ?thesis unfolding markTuples.simps True
      by (rule markTuples_keeps) simp
  next
    case False
    with Cons show ?thesis by simp
  qed
qed

lemma broadcastTx_frame:
  "peerSeenTxs (fst (broadcastTx nw h tx)) = peerSeenTxs h
   \<and> controller (fst (broadcastTx nw h tx)) = controller h"
  by (simp add: broadcastTx_def)

lemma AddTx_cases:
  "AddTx c tx = (c', tx', err) \<Longrightarrow>
     txs c' = txs c \<and> txStore c' (ID tx) \<noteq> None \<and> (txStore c (ID tx) \<noteq> None \<longrightarrow> c' = c)"
  by (auto simp: AddTx_def Let_def split: if_splits)

lemma addAndAck_frame:
  "peerSeenTxs (addAndAck nw h tx peer) = peerSeenTxs h
   \<and> txs (controller (addAndAck nw h tx peer)) = txs (controller h)
   \<and> (txStore (controller h) (ID tx) \<noteq> None \<longrightarrow>
        controller (addAndAck nw h tx peer) = controller h)
   \<and> (HaveTx (controller h) (ID tx) \<longrightarrow> controller (addAndAck nw h tx peer) = controller h)
   \<and> (\<not> HaveTx (controller h) (ID tx) \<longrightarrow>
        txStore (controller (addAndAck nw h tx peer)) (ID tx) \<noteq> None)"
proof (cases "AddTx (controller h) tx")
  case (fields c' tx' err)
  from AddTx_cases [OF fields] fields show ?thesis
    by (auto simp: addAndAck_def Let_def broadcastTx_frame)
qed

lemma mempoolLoop_frame:
  "txs (mempoolLoop cr ap evs c) = txs c
   \<and> storeLe (txStore c) (txStore (mempoolLoop cr ap evs c))"
proof (induction evs arbitrary: c)
  case Nil
  then show ?case by (simp add: storeLe_refl)
next
  case (Cons ev evs)
  have fp: "\<And>d. storeLe (txStore d) (txStore (processMempool cr ap d))
        \<and> txs (processMempool cr ap d) = txs d"
    using processMempool_fixpoint [where T = "{}" and cr = cr and ap = ap] by simp
  have step: "txs (mempoolLoopStep cr ap ev c) = txs c
      \<and> storeLe (txStore c) (txStore (mempoolLoopStep cr ap ev c))"
  proof (cases ev)
    case ReceiveTx
    show ?thesis
    proof (cases "chMempool c")
      case Nil
      with ReceiveTx show ?thesis by (simp add: storeLe_refl)
    next
      case (Cons tx queued)
      with ReceiveTx fp [of "c\<lparr>chMempool := queued, mempool := mempool c @ [tx]\<rparr>"]
      show ?thesis by simp
    qed
  next
    case DownloadedRef
    with fp [of c] show ?thesis by simp
  qed
  from Cons.IH [of "mempoolLoopStep cr ap ev c"] step show ?case
    by (auto intro: storeLe_trans [of "txStore c" "txStore (mempoolLoopStep cr ap ev c)"])
qed

text \<open>
  C7: when a tx has been delivered to \<^verbatim>\<open>onTxReceived\<close>, and the mempool worker has taken
  any number of turns since, delivering the same tx again (from the same or another
  peer) leaves the controller as it is: the tx store, the channel to the mempool, the
  pending list and the leaves set are those from before the second delivery.
\<close>

theorem onTxReceived_twice:
  "controller
     (onTxReceived nw
        ((onTxReceived nw h tx peer)
           \<lparr>controller := mempoolLoop cr ap evs (controller (onTxReceived nw h tx peer))\<rparr>)
        tx peer')
   = mempoolLoop cr ap evs (controller (onTxReceived nw h tx peer))"
proof -
  let ?h0 = "markTxSeenByPeer h peer (ID tx)"
  let ?h1 = "onTxReceived nw h tx peer"
  let ?c1 = "mempoolLoop cr ap evs (controller ?h1)"
  let ?h2 = "markTxSeenByPeer (?h1\<lparr>controller := ?c1\<rparr>) peer' (ID tx)"
  have h1: "?h1 = addAndAck nw ?h0 tx peer" by (simp add: onTxReceived_def)
  have c2: "controller ?h2 = ?c1" by (simp add: markTxSeenByPeer_def)
  note f1 = addAndAck_frame [of nw ?h0 tx peer]
  note lf = mempoolLoop_frame [of cr ap evs "controller ?h1"]
  have "HaveTx ?c1 (ID tx) \<or> txStore ?c1 (ID tx) \<noteq> None"
  proof (cases "HaveTx (controller ?h0) (ID tx)")
    case True
    with f1 lf h1 show ?thesis by (simp add: HaveTx_def)
  next
    case False
    with f1 h1 have "txStore (controller ?h1) (ID tx) \<noteq> None" by simp
    with lf show ?thesis unfolding storeLe_def by blast
  qed
  with addAndAck_frame [of nw ?h2 tx peer'] c2
  have "controller (addAndAck nw ?h2 tx peer') = ?c1" by auto
  then show ?thesis by (simp add: onTxReceived_def [of nw "?h1\<lparr>controller := ?c1\<rparr>"])
qed

text \<open>
  C6, as the specification words it: the map is updated on every send. A fresh host
  broadcasts a signed public tx; the one subscriber is sent a \<^verbatim>\<open>Put\<close>, and the map has
  no entry for the subscriber's peer tuple afterwards.
\<close>

theorem broadcastTx_does_not_mark_counterexample:
  "sent (fst (broadcastTx testNetwork (NewHost ''aaaaaaaaaaaaaaaaaaaa'' (NewController ()))
            (mkTx ''one'' [GenesisTxID] ''aaaaaaaaaaaaaaaaaaaa'')))
     = [(testPeer, MsgPut (mkTx ''one'' [GenesisTxID] ''aaaaaaaaaaaaaaaaaaaa''))]
   \<and> peerTuples testPeer = [(''libp2p'', ''/ip4/10.0.0.2/tcp/21231'')]
   \<and> peerSeenTxs (fst (broadcastTx testNetwork (NewHost ''aaaaaaaaaaaaaaaaaaaa'' (NewController ()))
            (mkTx ''one'' [GenesisTxID] ''aaaaaaaaaaaaaaaaaaaa'')))
        (''libp2p'', ''/ip4/10.0.0.2/tcp/21231'') = None"
  by (simp add: broadcastTx_def testNetwork_def NewHost_def mkTx_def IsPrivate_def
        txSeenByPeer_def testPeer_def peerTuples_def zeroAddress_def)

text \<open>
  C6, amended: the map is updated on every inbound tx and every Ack. After the host has
  received a tx from a peer (as a \<^verbatim>\<open>Put\<close> or as a \<^verbatim>\<open>Private\<close> message, whose tx ID counts
  even when the payload cannot be opened), or an Ack for a tx from a peer, the map
  records for every peer tuple of that peer that it has seen the tx's ID. Sending
  does not update the map: \<^verbatim>\<open>broadcastTx\<close> and \<^verbatim>\<open>SendTx\<close> leave it as it is.
\<close>

theorem peerSeenTxs_updated_on_receipt:
  "(\<forall>tuple \<in> set (peerTuples peer).
      \<exists>m. peerSeenTxs (onTxReceived nw h tx peer) tuple = Some m \<and> m (ID tx) = Some True)
   \<and> (\<forall>tuple \<in> set (peerTuples peer).
      \<exists>m. peerSeenTxs (onPrivateTxReceived nw h encryptedTx peer) tuple = Some m
          \<and> m (TxID encryptedTx) = Some True)
   \<and> (\<forall>tuple \<in> set (peerTuples peer).
      \<exists>m. peerSeenTxs (onAckReceived h txID peer) tuple = Some m \<and> m txID = Some True)
   \<and> peerSeenTxs (fst (broadcastTx nw h tx)) = peerSeenTxs h
   \<and> peerSeenTxs (fst (SendTx cr nw h tx)) = peerSeenTxs h"
proof -
  have mark: "\<And>i. \<forall>tuple \<in> set (peerTuples peer).
      \<exists>m. peerSeenTxs (markTxSeenByPeer h peer i) tuple = Some m \<and> m i = Some True"
    by (simp add: markTxSeenByPeer_def markTuples_marks)
  have a: "\<And>g t. peerSeenTxs (addAndAck nw g t peer) = peerSeenTxs g"
    using addAndAck_frame by blast
  have 1: "\<forall>tuple \<in> set (peerTuples peer).
      \<exists>m. peerSeenTxs (onTxReceived nw h tx peer) tuple = Some m \<and> m (ID tx) = Some True"
    using mark [of "ID tx"] by (simp add: onTxReceived_def a)
  have 2: "\<forall>tuple \<in> set (peerTuples peer).
      \<exists>m. peerSeenTxs (onPrivateTxReceived nw h encryptedTx peer) tuple = Some m
          \<and> m (TxID encryptedTx) = Some True"
    using mark [of "TxID encryptedTx"]
    by (auto simp: onPrivateTxReceived_def Let_def a split: option.splits)
  have 3: "\<forall>tuple \<in> set (peerTuples peer).
      \<exists>m. peerSeenTxs (onAckReceived h txID peer) tuple = Some m \<and> m txID = Some True"
    using mark [of txID] by (simp add: onAckReceived_def)
  have 4: "peerSeenTxs (fst (broadcastTx nw h tx)) = peerSeenTxs h"
    by (simp add: broadcastTx_frame)
  have 5: "peerSeenTxs (fst (SendTx cr nw h tx)) = peerSeenTxs h"
    by (auto simp: SendTx_def broadcastTx_frame split: sum.splits prod.splits option.splits)
  from 1 2 3 4 5 show ?thesis by blast
qed

theorem peerSeenTxs_updated_on_receipt_witness:
  "peerTuples testPeer = [(''libp2p'', ''/ip4/10.0.0.2/tcp/21231'')]
   \<and> (\<exists>m. peerSeenTxs (onAckReceived (NewHost ''aaaaaaaaaaaaaaaaaaaa'' (NewController ())) ''one'' testPeer)
            (''libp2p'', ''/ip4/10.0.0.2/tcp/21231'') = Some m \<and> m ''one'' = Some True)"
  using peerSeenTxs_updated_on_receipt [of testPeer testNetwork
      "NewHost ''aaaaaaaaaaaaaaaaaaaa'' (NewController ())"
      "mkTx ''one'' [GenesisTxID] ''aaaaaaaaaaaaaaaaaaaa''" "\<lparr>TxID = ''one'', EncryptedPayload = [], SenderPublicKey = []\<rparr>" "''one''" testCrypto]
  by (simp add: peerTuples_def testPeer_def)

end
